theory Spec2Isabelle
  imports Complex_Main "HOL-Library.Sublist"
begin

section \<open>Strings\<close>

text \<open>
  Python strings are modelled as \<^typ>\<open>string\<close>. The model covers ASCII text: a
  character with a code above 127 is neither whitespace nor a word character here.
  \<open>is_space\<close> is the class \<open>\s\<close> of the \<open>re\<close> module (and the set that
  \<open>str.strip()\<close> removes) on ASCII, \<open>is_word_char\<close> is \<open>\w\<close> on ASCII.
\<close>

definition is_space :: "char \<Rightarrow> bool" where
  "is_space c = (let n = (of_char c :: nat) in (9 \<le> n \<and> n \<le> 13) \<or> (28 \<le> n \<and> n \<le> 32))"

definition is_word_char :: "char \<Rightarrow> bool" where
  "is_word_char c =
     (let n = (of_char c :: nat)
      in (48 \<le> n \<and> n \<le> 57) \<or> (65 \<le> n \<and> n \<le> 90) \<or> (97 \<le> n \<and> n \<le> 122) \<or> n = 95)"

definition lower_char :: "char \<Rightarrow> char" where
  "lower_char c =
     (let n = (of_char c :: nat) in if 65 \<le> n \<and> n \<le> 90 then char_of (n + 32) else c)"

definition lower :: "string \<Rightarrow> string" where
  "lower s = map lower_char s"

definition strip :: "string \<Rightarrow> string" where
  "strip s = rev (dropWhile is_space (rev (dropWhile is_space s)))"

text \<open>\<open>sep.join(xs)\<close>\<close>

fun str_join :: "string \<Rightarrow> string list \<Rightarrow> string" where
  "str_join sep [] = []"
| "str_join sep [x] = x"
| "str_join sep (x # y # r) = x @ sep @ str_join sep (y # r)"

text \<open>\<open>q in t\<close> on strings: \<open>q\<close> occurs in \<open>t\<close> as a contiguous substring.\<close>

fun str_in :: "string \<Rightarrow> string \<Rightarrow> bool" where
  "str_in q [] = (q = [])"
| "str_in q (c # cs) = (prefix q (c # cs) \<or> str_in q cs)"

text \<open>\<open>re.sub(P+, ' ', s)\<close> for a character class \<open>P\<close>: every maximal run of
  characters of the class becomes one space.\<close>

function sub_runs :: "(char \<Rightarrow> bool) \<Rightarrow> string \<Rightarrow> string" where
  "sub_runs P [] = []"
| "sub_runs P (c # cs) =
     (if P c then CHR '' '' # sub_runs P (dropWhile P cs) else c # sub_runs P cs)"
  by pat_completeness auto
termination
  by (relation "measure (\<lambda>(P, s). length s)") (auto simp: less_Suc_eq_le length_dropWhile_le)

section \<open>The chunker\<close>

text \<open>The characters that the second substitution of \<open>preprocess_text\<close> keeps:
  \<open>[\w\s.,;:!?()\-'"]\<close>.\<close>

definition is_kept :: "char \<Rightarrow> bool" where
  "is_kept c = (is_word_char c \<or> is_space c \<or> c \<in> set ''.,;:!?()-'\"'')"

definition preprocess_text :: "string \<Rightarrow> string" where
  "preprocess_text text0 =
     (let text1 = sub_runs is_space text0;
          text2 = map (\<lambda>c. if is_kept c then c else CHR '' '') text1;
          text3 = sub_runs (\<lambda>c. c = CHR '' '') text2
      in strip text3)"

definition is_terminator :: "char \<Rightarrow> bool" where
  "is_terminator c = (c \<in> set ''.!?'')"

text \<open>\<open>re.split(r'(?<=[.!?])\s+', s)\<close>: a whitespace run that directly follows a
  terminator ends the current piece and is discarded; the last piece is what is left at the
  end of the string (the empty string when the string is empty or ends with such a run).\<close>

function re_split_aux :: "string \<Rightarrow> string \<Rightarrow> string list" where
  "re_split_aux cur [] = [cur]"
| "re_split_aux cur (c # cs) =
     (if is_space c \<and> cur \<noteq> [] \<and> is_terminator (last cur)
      then cur # re_split_aux [] (dropWhile is_space cs)
      else re_split_aux (cur @ [c]) cs)"
  by pat_completeness auto
termination
  by (relation "measure (\<lambda>(cur, s). length s)") (auto simp: less_Suc_eq_le length_dropWhile_le)

definition split_sentences :: "string \<Rightarrow> string list" where
  "split_sentences s = re_split_aux [] s"

record chunk =
  chunk_text :: string
  chunk_length :: nat
  sentence_count :: nat

type_synonym chunker_state = "chunk list \<times> string \<times> string list"

text \<open>The body of the loop of \<open>create_chunks\<close>; the state is
  \<open>(chunks, current_chunk, sentence_buffer)\<close>.\<close>

definition chunk_step :: "int \<Rightarrow> chunker_state \<Rightarrow> string \<Rightarrow> chunker_state" where
  "chunk_step chunk_size st sentence =
     (case st of (chunks, current_chunk, sentence_buffer) \<Rightarrow>
        let projected_length = int (length current_chunk) + int (length sentence) + 1 in
        if projected_length > chunk_size \<and> current_chunk \<noteq> [] then
          let chunks' = chunks @ [\<lparr>chunk_text = strip current_chunk,
                                   chunk_length = length current_chunk,
                                   sentence_count = length sentence_buffer\<rparr>]
          in if length sentence_buffer > 2 then
               let overlap_sentences = drop (length sentence_buffer - 2) sentence_buffer
               in (chunks', str_join '' '' overlap_sentences @ '' '' @ sentence,
                   overlap_sentences @ [sentence])
             else (chunks', sentence, [sentence])
        else (chunks,
              (if current_chunk \<noteq> [] then current_chunk @ '' '' @ sentence else sentence),
              sentence_buffer @ [sentence]))"

definition chunk_loop :: "int \<Rightarrow> string list \<Rightarrow> chunker_state" where
  "chunk_loop chunk_size sentences = foldl (chunk_step chunk_size) ([], [], []) sentences"

definition create_chunks :: "string \<Rightarrow> int \<Rightarrow> int \<Rightarrow> chunk list" where
  "create_chunks text0 chunk_size overlap =
     (let processed_text = preprocess_text text0;
          sentences = split_sentences processed_text
      in case chunk_loop chunk_size sentences of (chunks, current_chunk, sentence_buffer) \<Rightarrow>
           if strip current_chunk \<noteq> [] then
             chunks @ [\<lparr>chunk_text = strip current_chunk,
                        chunk_length = length current_chunk,
                        sentence_count = length sentence_buffer\<rparr>]
           else chunks)"

text \<open>Notions used to state properties of the chunker. A string is \<open>solid\<close> when it is
  not empty and neither starts nor ends with whitespace. \<open>chunk_of_sentences b\<close> is the
  record of a chunk whose sentence buffer is \<open>b\<close> and whose text is the sentences joined
  by single spaces. \<open>drop_seeds prev bs\<close> concatenates the sentence buffers \<open>bs\<close> of
  consecutive chunks, leaving out the first two sentences of every buffer whose
  predecessor (\<open>prev\<close> for the first one) had more than two sentences: those are the
  overlap seeds. \<open>chunk_bounded chunk_size prev b\<close> says of the buffer \<open>b\<close> of a chunk
  that follows a chunk of buffer \<open>prev\<close>: it holds at most one sentence, or its chunk has
  at most \<open>chunk_size\<close> characters, or it is the last two sentences of \<open>prev\<close> (which had
  more than two) followed by one sentence. \<open>chunks_bounded\<close> says so of every buffer of
  a sequence.\<close>

definition solid :: "string \<Rightarrow> bool" where
  "solid p = (p \<noteq> [] \<and> \<not> is_space (hd p) \<and> \<not> is_space (last p))"

definition chunk_of_sentences :: "string list \<Rightarrow> chunk" where
  "chunk_of_sentences b =
     \<lparr>chunk_text = str_join '' '' b,
      chunk_length = length (str_join '' '' b),
      sentence_count = length b\<rparr>"

fun drop_seeds :: "string list \<Rightarrow> string list list \<Rightarrow> string list" where
  "drop_seeds prev [] = []"
| "drop_seeds prev (b # r) = (if length prev > 2 then drop 2 b else b) @ drop_seeds b r"

definition chunk_bounded :: "int \<Rightarrow> string list \<Rightarrow> string list \<Rightarrow> bool" where
  "chunk_bounded chunk_size prev b =
     (length b \<le> 1 \<or> int (length (str_join '' '' b)) \<le> chunk_size \<or>
      (length prev > 2 \<and> butlast b = drop (length prev - 2) prev))"

fun chunks_bounded :: "int \<Rightarrow> string list \<Rightarrow> string list list \<Rightarrow> bool" where
  "chunks_bounded chunk_size prev [] = True"
| "chunks_bounded chunk_size prev (b # r) =
     (chunk_bounded chunk_size prev b \<and> chunks_bounded chunk_size b r)"

text \<open>The loop invariant of \<open>create_chunks\<close> after the sentences \<open>xs\<close>: the emitted chunks
  are the chunks of the buffers \<open>bufs\<close>, the current chunk is the join of the current
  buffer, and the buffers without their seeds give back \<open>xs\<close>.\<close>

definition chunk_inv :: "int \<Rightarrow> string list \<Rightarrow> chunker_state \<Rightarrow> string list list \<Rightarrow> bool" where
  "chunk_inv chunk_size xs st bufs =
     (case st of (chunks, current_chunk, sentence_buffer) \<Rightarrow>
        chunks = map chunk_of_sentences bufs \<and>
        current_chunk = str_join '' '' sentence_buffer \<and>
        drop_seeds [] (bufs @ [sentence_buffer]) = xs \<and>
        (xs \<noteq> [] \<longrightarrow> sentence_buffer \<noteq> []) \<and>
        set sentence_buffer \<subseteq> set xs \<and>
        (\<forall>b \<in> set bufs. b \<noteq> [] \<and> set b \<subseteq> set xs) \<and>
        (bufs \<noteq> [] \<and> length (last bufs) > 2 \<longrightarrow> length sentence_buffer \<ge> 2) \<and>
        chunks_bounded chunk_size [] (bufs @ [sentence_buffer]))"

section \<open>The engine\<close>

text \<open>A Python exception is modelled by its message: \<open>str(e)\<close> is \<open>exn_str e\<close>. The
  source raises the generic \<open>Exception\<close> everywhere and tells failures apart by message.\<close>

datatype exn = Exception string

fun exn_str :: "exn \<Rightarrow> string" where
  "exn_str (Exception m) = m"

text \<open>\<open>str(n)\<close> for a non-negative integer.\<close>

fun str_of_nat :: "nat \<Rightarrow> string" where
  "str_of_nat n =
     (if n < 10 then [char_of (48 + n)]
      else str_of_nat (n div 10) @ [char_of (48 + n mod 10)])"

declare str_of_nat.simps [simp del]

text \<open>The uploaded file as PyPDF2 presents it: either reading it raises (\<open>Unreadable\<close>,
  with the message of the exception), or it has pages, and \<open>extract_text()\<close> of a page
  returns a string or raises (\<open>None\<close>).\<close>

datatype pdf_file = Unreadable string | Pages "string option list"

abbreviation LF :: char where
  "LF \<equiv> CHR 0x0A"

text \<open>The loop of \<open>extract_text_from_pdf\<close> over \<open>enumerate(pdf_reader.pages)\<close>,
  from page number \<open>page_num\<close> on; the result is what the loop adds to
  \<open>extracted_text\<close>.\<close>

fun extract_pages :: "nat \<Rightarrow> nat \<Rightarrow> string option list \<Rightarrow> string" where
  "extract_pages page_num total_pages [] = []"
| "extract_pages page_num total_pages (None # pages) =
     extract_pages (Suc page_num) total_pages pages"
| "extract_pages page_num total_pages (Some page_text # pages) =
     (if strip page_text \<noteq> [] then
        [LF] @ ''--- Page '' @ str_of_nat (page_num + 1) @ '' of '' @ str_of_nat total_pages
          @ '' ---'' @ [LF] @ strip page_text @ [LF]
      else [])
     @ extract_pages (Suc page_num) total_pages pages"

definition extract_text_from_pdf :: "pdf_file \<Rightarrow> exn + string" where
  "extract_text_from_pdf pdf =
     (case pdf of
        Unreadable m \<Rightarrow> Inl (Exception (''PDF text extraction failed: '' @ m))
      | Pages pages \<Rightarrow>
          let extracted_text = extract_pages 0 (length pages) pages in
          if strip extracted_text = [] then
            Inl (Exception (''PDF text extraction failed: ''
                            @ ''No readable text found in the PDF file''))
          else Inr (strip extracted_text))"

record doc_meta =
  dm_filename :: string
  dm_chunks :: nat
  total_chars :: nat
  preview :: string

record chunk_data =
  cd_id :: string
  cd_text :: string
  text_lower :: string
  cd_filename :: string
  doc_id :: string
  chunk_index :: nat
  cd_length :: nat
  cd_sentence_count :: nat

text \<open>\<open>self.documents\<close> is a dict, which keeps insertion order; \<open>self.chunks\<close> is a
  list.\<close>

record engine =
  documents :: "(string \<times> doc_meta) list"
  chunks :: "chunk_data list"

definition init_engine :: engine where
  "init_engine = \<lparr>documents = [], chunks = []\<rparr>"

text \<open>\<open>d[k] = v\<close>: an existing key keeps its place and gets the new value, a new key
  goes to the end.\<close>

fun dict_set :: "'k \<Rightarrow> 'v \<Rightarrow> ('k \<times> 'v) list \<Rightarrow> ('k \<times> 'v) list" where
  "dict_set k v [] = [(k, v)]"
| "dict_set k v ((k', v') # r) = (if k' = k then (k, v) # r else (k', v') # dict_set k v r)"

definition chunk_record :: "string \<Rightarrow> string \<Rightarrow> nat \<times> chunk \<Rightarrow> chunk_data" where
  "chunk_record doc_id0 filename ic =
     (case ic of (i, c) \<Rightarrow>
        \<lparr>cd_id = doc_id0 @ ''_'' @ str_of_nat i,
         cd_text = chunk_text c,
         text_lower = lower (chunk_text c),
         cd_filename = filename,
         doc_id = doc_id0,
         chunk_index = i,
         cd_length = chunk_length c,
         cd_sentence_count = sentence_count c\<rparr>)"

text \<open>\<open>add_document\<close>. \<open>uuid4\<close> is the string that \<open>str(uuid.uuid4())\<close> returns in
  this call. The result is the engine after the call and either the exception raised or
  the pair returned. The only statement that can raise is the extraction, which comes
  before every write.\<close>

definition add_document ::
  "engine \<Rightarrow> pdf_file \<Rightarrow> string \<Rightarrow> string \<Rightarrow> engine \<times> (exn + string \<times> nat)" where
  "add_document s pdf filename uuid4 =
     (case extract_text_from_pdf pdf of
        Inl e \<Rightarrow>
          (s, Inl (Exception (''Failed to add document '' @ filename @ '': '' @ exn_str e)))
      | Inr document_text \<Rightarrow>
          let doc_chunks = create_chunks document_text 1000 100;
              doc_id0 = uuid4;
              s1 = s\<lparr>chunks := chunks s
                        @ map (chunk_record doc_id0 filename) (enumerate 0 doc_chunks)\<rparr>;
              s2 = s1\<lparr>documents :=
                        dict_set doc_id0
                          \<lparr>dm_filename = filename,
                           dm_chunks = length doc_chunks,
                           total_chars = length document_text,
                           preview = (if length document_text > 300
                                      then take 300 document_text @ ''...''
                                      else document_text)\<rparr>
                          (documents s1)\<rparr>
          in (s2, Inr (doc_id0, length doc_chunks)))"

text \<open>The chunks that \<open>add_document\<close> creates for a file: the result of
  \<open>create_chunks(document_text)\<close> with the default parameters when the extraction
  returns a text, and none when the extraction raises (no chunk is then created).\<close>

definition document_chunks :: "pdf_file \<Rightarrow> chunk list" where
  "document_chunks pdf =
     (case extract_text_from_pdf pdf of
        Inl e \<Rightarrow> []
      | Inr document_text \<Rightarrow> create_chunks document_text 1000 100)"

section \<open>Search\<close>

text \<open>\<open>re.findall(r'\b\w+\b', s)\<close>: the maximal runs of word characters, in order.\<close>

fun findall_aux :: "string \<Rightarrow> string \<Rightarrow> string list" where
  "findall_aux cur [] = (if cur = [] then [] else [cur])"
| "findall_aux cur (c # cs) =
     (if is_word_char c then findall_aux (cur @ [c]) cs
      else (if cur = [] then [] else [cur]) @ findall_aux [] cs)"

definition findall_words :: "string \<Rightarrow> string list" where
  "findall_words s = findall_aux [] s"

text \<open>A Python set of strings is kept as a list without repetitions; \<open>len\<close> of the set
  is the length of the list. The order in which \<open>list(common_words)\<close> enumerates a set is
  not fixed by Python; the model takes the order of first occurrence in the query, and no
  statement below depends on it. Scores are Python floats; the model computes them in
  exact arithmetic (\<open>0.3\<close> is \<open>3/10\<close>, \<open>0.2\<close> is \<open>2/10\<close>).\<close>

record scored_chunk =
  sc_text :: string
  sc_filename :: string
  similarity_score :: real
  sc_chunk_index :: nat
  matching_words :: "string list"

definition score_chunk :: "string \<Rightarrow> string list \<Rightarrow> chunk_data \<Rightarrow> scored_chunk option" where
  "score_chunk query_lower query_words chunk0 =
     (let chunk_words = remdups (findall_words (text_lower chunk0));
          common_words = filter (\<lambda>w. w \<in> set chunk_words) query_words
      in if common_words \<noteq> [] then
           let base_score = real (length common_words) / real (length query_words);
               phrase_bonus = (if str_in query_lower (text_lower chunk0) then 3 / 10 else 0);
               sequence_bonus = (if length common_words > 1 then 2 / 10 else 0);
               final_score = base_score + phrase_bonus + sequence_bonus
           in Some \<lparr>sc_text = cd_text chunk0,
                    sc_filename = cd_filename chunk0,
                    similarity_score = min final_score 1,
                    sc_chunk_index = chunk_index chunk0,
                    matching_words = common_words\<rparr>
         else None)"

text \<open>\<open>xs[:k]\<close> for an integer \<open>k\<close>: a negative \<open>k\<close> counts from the end.\<close>

definition slice_to :: "'a list \<Rightarrow> int \<Rightarrow> 'a list" where
  "slice_to xs k = (if 0 \<le> k then take (nat k) xs else take (nat (int (length xs) + k)) xs)"

text \<open>\<open>scored_chunks.sort(key=lambda x: x['similarity_score'], reverse=True)\<close>: Python's
  sort is stable, also with \<open>reverse=True\<close>; it is the stable sort on the negated key.\<close>

definition sort_by_score_desc :: "scored_chunk list \<Rightarrow> scored_chunk list" where
  "sort_by_score_desc xs = sort_key (\<lambda>x. - similarity_score x) xs"

definition scored_chunks :: "engine \<Rightarrow> string \<Rightarrow> scored_chunk list" where
  "scored_chunks s query =
     List.map_filter
       (score_chunk (lower query) (remdups (findall_words (lower query)))) (chunks s)"

text \<open>\<open>search_relevant_content\<close>: the engine after the call and the list returned.
  No statement in the \<open>try\<close> block can raise on an engine of this type, so the
  \<open>except\<close> branch (which returns the empty list) has no counterpart.\<close>

definition search_relevant_content ::
  "engine \<Rightarrow> string \<Rightarrow> int \<Rightarrow> engine \<times> scored_chunk list" where
  "search_relevant_content s query max_results =
     (if chunks s = [] then (s, [])
      else
        let query_lower = lower query;
            query_words = remdups (findall_words query_lower)
        in if query_words = [] then (s, [])
           else (s, slice_to (sort_by_score_desc (scored_chunks s query)) max_results))"

record stats =
  total_documents :: nat
  total_chunks :: nat
  stats_documents :: "doc_meta list"

definition get_document_stats :: "engine \<Rightarrow> engine \<times> stats" where
  "get_document_stats s =
     (s, \<lparr>total_documents = length (documents s),
          total_chunks = length (chunks s),
          stats_documents = map snd (documents s)\<rparr>)"

section \<open>The answer composer\<close>

record source_info =
  src_filename :: string
  confidence :: real
  matching_terms :: "string list"

record answer =
  answer_text :: string
  sources :: "source_info list"
  context_used :: nat

definition no_information_answer :: string where
  "no_information_answer =
     ''I couldn't find relevant information in your uploaded documents to answer this question. ''
     @ ''Please make sure you've uploaded materials that cover this topic, ''
     @ ''or try rephrasing your question with different keywords.''"

definition advanced_style :: string where
  "advanced_style =
     ''Provide a comprehensive, technical explanation that includes:'' @ [LF]
     @ ''- Detailed technical terminology and precise definitions'' @ [LF]
     @ ''- In-depth analysis of processes and mechanisms'' @ [LF]
     @ ''- Mathematical formulations, equations, or formulas when applicable'' @ [LF]
     @ ''- Advanced conceptual relationships and theoretical implications'' @ [LF]
     @ ''- References to established principles and theories''"

definition beginner_style :: string where
  "beginner_style =
     ''Provide a clear, beginner-friendly explanation that includes:'' @ [LF]
     @ ''- Simple, accessible language with helpful analogies'' @ [LF]
     @ ''- Step-by-step breakdown of complex concepts'' @ [LF]
     @ ''- Real-world examples and practical applications'' @ [LF]
     @ ''- Minimal technical jargon, with explanations when necessary'' @ [LF]
     @ ''- Easy-to-understand comparisons and metaphors''"

definition build_prompt :: "string \<Rightarrow> string \<Rightarrow> string \<Rightarrow> string" where
  "build_prompt context0 question style_instruction =
     ''You are MYTUTS, an intelligent AI study assistant helping students understand their ''
     @ ''course materials. Your role is to provide clear, accurate explanations based on the ''
     @ ''uploaded study documents.'' @ [LF, LF]
     @ ''CONTEXT FROM STUDENT'S UPLOADED MATERIALS:'' @ [LF]
     @ context0 @ [LF, LF]
     @ ''STUDENT'S QUESTION: '' @ question @ [LF, LF]
     @ ''EXPLANATION APPROACH: '' @ style_instruction @ [LF, LF]
     @ ''RESPONSE GUIDELINES:'' @ [LF]
     @ ''1. Answer the question directly and comprehensively using the provided context'' @ [LF]
     @ ''2. Apply the specified complexity level consistently throughout your response'' @ [LF]
     @ ''3. Include specific details, examples, and explanations from the context'' @ [LF]
     @ ''4. Structure your response clearly with appropriate headings or organization'' @ [LF]
     @ ''5. If the context doesn't fully address the question, mention what additional ''
     @ ''information would be helpful'' @ [LF]
     @ ''6. Always ground your response in the provided materials'' @ [LF]
     @ ''7. Be engaging and educational while maintaining accuracy'' @ [LF, LF]
     @ ''Please provide your detailed response:''"

definition context_part :: "nat \<times> scored_chunk \<Rightarrow> string" where
  "context_part ic =
     (case ic of (i, c) \<Rightarrow>
        ''[Source '' @ str_of_nat (i + 1) @ '' from '' @ sc_filename c @ '']'' @ [LF] @ sc_text c)"

text \<open>\<open>generate_answer\<close>. \<open>generate\<close> is the external generation capability
  (\<open>call_google_ai\<close>): it returns the generated text or raises. The first component of the
  result lists the prompts the capability was invoked with during the call, in order.\<close>

definition generate_answer ::
  "engine \<Rightarrow> (string \<Rightarrow> exn + string) \<Rightarrow> string \<Rightarrow> string \<Rightarrow> string list \<times> (exn + answer)" where
  "generate_answer s generate question complexity_level =
     (let relevant_chunks = snd (search_relevant_content s question 3) in
      if relevant_chunks = [] then
        ([], Inr \<lparr>answer_text = no_information_answer, sources = [], context_used = 0\<rparr>)
      else
        let context0 = str_join [LF, LF] (map context_part (enumerate 0 relevant_chunks));
            style_instruction =
              (if str_in ''advanced'' (lower complexity_level) then advanced_style
               else beginner_style);
            prompt = build_prompt context0 question style_instruction
        in case generate prompt of
             Inl e \<Rightarrow>
               ([prompt], Inl (Exception (''Answer generation failed: '' @ exn_str e)))
           | Inr ai_response \<Rightarrow>
               ([prompt],
                Inr \<lparr>answer_text = ai_response,
                     sources = map (\<lambda>c. \<lparr>src_filename = sc_filename c,
                                          confidence = similarity_score c,
                                          matching_terms = take 5 (matching_words c)\<rparr>)
                                  relevant_chunks,
                     context_used = length relevant_chunks\<rparr>))"

section \<open>Reachable states and sample data\<close>

text \<open>The states of the index: the initial one, and the one after each successful
  \<open>add_document\<close>. The identifier that \<open>uuid4\<close> returns is taken to be new, that is,
  not yet a key of \<open>documents\<close>.\<close>

inductive reachable :: "engine \<Rightarrow> bool" where
  reachable_init: "reachable init_engine"
| reachable_add:
    "reachable s \<Longrightarrow> uuid4 \<notin> fst ` set (documents s) \<Longrightarrow>
     add_document s pdf filename uuid4 = (s', Inr r) \<Longrightarrow> reachable s'"

definition sample_pdf :: pdf_file where
  "sample_pdf = Pages [Some ''Cats are mammals. Dogs are mammals too.'', None,
                       Some ''Birds can fly.'']"

definition sample_engine :: engine where
  "sample_engine = fst (add_document init_engine sample_pdf ''animals.pdf'' ''doc-1'')"

definition more_pdf :: pdf_file where
  "more_pdf = Pages [Some ''Whales are mammals.'']"

definition sample_engine2 :: engine where
  "sample_engine2 = fst (add_document sample_engine more_pdf ''whales.pdf'' ''doc-2'')"

section \<open>The scoring rule as the specification words it\<close>

text \<open>The specification's scoring rule, on sets of tokens: \<open>commonTokens\<close> is the
  intersection of the query's and the chunk's word tokens, the base score is
  \<open>|commonTokens| / |queryTokens|\<close>, the phrase bonus is given when the lowercased query
  is a contiguous substring of the chunk's normalized text, the sequence bonus when more
  than one token is common, and the sum is capped at 1. These definitions are compared
  with \<open>score_chunk\<close> below.\<close>

definition common_tokens :: "string \<Rightarrow> chunk_data \<Rightarrow> string set" where
  "common_tokens query c =
     set (findall_words (lower query)) \<inter> set (findall_words (text_lower c))"

definition spec_score :: "string \<Rightarrow> chunk_data \<Rightarrow> real" where
  "spec_score query c =
     (let baseScore = real (card (common_tokens query c))
                        / real (card (set (findall_words (lower query))));
          phraseBonus = (if sublist (lower query) (text_lower c) then 3 / 10 else 0);
          sequenceBonus = (if card (common_tokens query c) > 1 then 2 / 10 else 0)
      in min (baseScore + phraseBonus + sequenceBonus) 1)"

text \<open>The result entry of a chunk under the specification's rule: the chunk's text, file
  name and ordinal index, the score above, and the common tokens.\<close>

definition spec_entry :: "string \<Rightarrow> chunk_data \<Rightarrow> scored_chunk" where
  "spec_entry query c =
     \<lparr>sc_text = cd_text c,
      sc_filename = cd_filename c,
      similarity_score = spec_score query c,
      sc_chunk_index = chunk_index c,
      matching_words = filter (\<lambda>w. w \<in> set (findall_words (text_lower c)))
                         (remdups (findall_words (lower query)))\<rparr>"

section \<open>Empty queries\<close>

text \<open>
  Claim C7. A query whose tokenization yields an empty token set (a blank query, or one
  made of punctuation only) makes \<open>search_relevant_content\<close> return the empty list, on
  every index and for every \<open>max_results\<close>. The result of the search is a plain list:
  the function has no error result, and the index is returned as it was.
\<close>

theorem search_empty_query:
  "set (findall_words (lower query)) = {} \<Longrightarrow>
   search_relevant_content s query max_results = (s, [])"
  by (simp add: search_relevant_content_def)

theorem search_empty_query_witness:
  "set (findall_words (lower '' ?! '')) = {} \<and>
   chunks sample_engine \<noteq> [] \<and>
   search_relevant_content sample_engine '' ?! '' 3 = (sample_engine, [])"
proof -
  have h: "set (findall_words (lower '' ?! '')) = {}"
    by code_simp
  have c: "chunks sample_engine \<noteq> []"
    by code_simp
  from search_empty_query [OF h, of sample_engine 3] h c show ?thesis
    by simp
qed

section \<open>Ingestion: frame and invariant\<close>

lemma dict_set_fresh: "k \<notin> fst ` set d \<Longrightarrow> dict_set k v d = d @ [(k, v)]"
  by (induction d) auto

lemma map_of_dict_set:
  "map_of (dict_set k v d) k' = (if k' = k then Some v else map_of d k')"
  by (induction d) auto

lemma add_document_success:
  assumes "add_document s pdf filename uid = (s', Inr r)"
  shows "\<exists>t. extract_text_from_pdf pdf = Inr t \<and>
           r = (uid, length (create_chunks t 1000 100)) \<and>
           chunks s' = chunks s
              @ map (chunk_record uid filename) (enumerate 0 (create_chunks t 1000 100)) \<and>
           documents s' = dict_set uid
              \<lparr>dm_filename = filename,
               dm_chunks = length (create_chunks t 1000 100),
               total_chars = length t,
               preview = (if length t > 300 then take 300 t @ ''...'' else t)\<rparr>
              (documents s)"
  using assms
  by (auto simp: add_document_def Let_def split: sum.splits)

lemma doc_id_chunk_record: "doc_id (chunk_record d f ic) = d"
  by (cases ic) (simp add: chunk_record_def)

text \<open>
  Claim C10. \<open>search_relevant_content\<close> and \<open>get_document_stats\<close> return the index
  they were given, for every query, every \<open>max_results\<close> and every state. A successful
  \<open>add_document\<close> only appends: the chunk list after the call is the old list followed
  by the new chunk records; the only entry of \<open>documents\<close> that is written is the one
  under the identifier that \<open>uuid4\<close> returned, and since that identifier is new, the
  documents after the call are the old entries, in order, followed by one new entry. So
  every record stored before is still there, unchanged and at the same position.
\<close>

theorem index_frame:
  "fst (search_relevant_content s query max_results) = s \<and>
   fst (get_document_stats s) = s \<and>
   (add_document s pdf filename uid = (s', Inr r) \<longrightarrow>
      (\<exists>new_chunks. chunks s' = chunks s @ new_chunks) \<and>
      (\<forall>k. k \<noteq> uid \<longrightarrow> map_of (documents s') k = map_of (documents s) k) \<and>
      (uid \<notin> fst ` set (documents s) \<longrightarrow>
         (\<exists>new_document. documents s' = documents s @ [new_document])))"
proof -
  have "fst (search_relevant_content s query max_results) = s"
    by (simp add: search_relevant_content_def Let_def)
  moreover have "fst (get_document_stats s) = s"
    by (simp add: get_document_stats_def)
  moreover have "(\<exists>new_chunks. chunks s' = chunks s @ new_chunks) \<and>
      (\<forall>k. k \<noteq> uid \<longrightarrow> map_of (documents s') k = map_of (documents s) k) \<and>
      (uid \<notin> fst ` set (documents s) \<longrightarrow>
         (\<exists>new_document. documents s' = documents s @ [new_document]))"
    if ok: "add_document s pdf filename uid = (s', Inr r)"
  proof -
    from add_document_success [OF ok] obtain t where
      c: "chunks s' = chunks s
              @ map (chunk_record uid filename) (enumerate 0 (create_chunks t 1000 100))"
      and d: "documents s' = dict_set uid
              \<lparr>dm_filename = filename,
               dm_chunks = length (create_chunks t 1000 100),
               total_chars = length t,
               preview = (if length t > 300 then take 300 t @ ''...'' else t)\<rparr>
              (documents s)"
      by blast
    from c have 1: "\<exists>new_chunks. chunks s' = chunks s @ new_chunks"
      by blast
    from d have 2: "\<forall>k. k \<noteq> uid \<longrightarrow> map_of (documents s') k = map_of (documents s) k"
      by (simp add: map_of_dict_set)
    from d have 3: "uid \<notin> fst ` set (documents s) \<longrightarrow>
         (\<exists>new_document. documents s' = documents s @ [new_document])"
      by (simp add: dict_set_fresh)
    from 1 2 3 show ?thesis
      by blast
  qed
  ultimately show ?thesis
    by blast
qed

lemma sample_add:
  "add_document init_engine sample_pdf ''animals.pdf'' ''doc-1'' = (sample_engine, Inr (''doc-1'', 1))"
  by code_simp

lemma sample_add2:
  "add_document sample_engine more_pdf ''whales.pdf'' ''doc-2'' = (sample_engine2, Inr (''doc-2'', 1))"
  by code_simp

theorem index_frame_witness:
  "fst (search_relevant_content sample_engine2 ''mammals'' 3) = sample_engine2 \<and>
   fst (get_document_stats sample_engine2) = sample_engine2 \<and>
   length (chunks sample_engine) = 1 \<and> map fst (documents sample_engine) = [''doc-1''] \<and>
   (\<exists>new_chunks new_document.
       chunks sample_engine2 = chunks sample_engine @ new_chunks \<and>
       documents sample_engine2 = documents sample_engine @ [new_document]) \<and>
   map_of (documents sample_engine2) ''doc-1'' = map_of (documents sample_engine) ''doc-1''"
proof -
  have l: "length (chunks sample_engine) = 1"
    by code_simp
  have k: "map fst (documents sample_engine) = [''doc-1'']"
    by code_simp
  have "fst ` set (documents sample_engine) = set (map fst (documents sample_engine))"
    by simp
  then have fresh: "''doc-2'' \<notin> fst ` set (documents sample_engine)"
    unfolding k by simp
  have f1: "fst (search_relevant_content sample_engine2 ''mammals'' 3) = sample_engine2"
    using index_frame [where s = sample_engine2 and query = "''mammals''" and max_results = 3]
    by blast
  have f2: "fst (get_document_stats sample_engine2) = sample_engine2"
    using index_frame [where s = sample_engine2] by blast
  note fr = index_frame [where s = sample_engine and uid = "''doc-2''" and pdf = more_pdf
      and filename = "''whales.pdf''" and s' = sample_engine2 and r = "(''doc-2'', 1)"]
  from fr sample_add2 fresh have ap: "\<exists>new_chunks new_document.
       chunks sample_engine2 = chunks sample_engine @ new_chunks \<and>
       documents sample_engine2 = documents sample_engine @ [new_document]"
    by blast
  from fr sample_add2 have
    "\<forall>k. k \<noteq> ''doc-2'' \<longrightarrow>
       map_of (documents sample_engine2) k = map_of (documents sample_engine) k"
    by blast
  then have old: "map_of (documents sample_engine2) ''doc-1''
      = map_of (documents sample_engine) ''doc-1''"
    by simp
  from f1 f2 l k ap old show ?thesis
    by blast
qed

text \<open>
  Claim C9. In every reachable state of the index, the number of stored chunks is the sum
  of the \<open>chunks\<close> counters of the stored document records, and the \<open>doc_id\<close> of every
  stored chunk is a key of \<open>documents\<close>; the totals reported by
  \<open>get_document_stats\<close> agree in the same way.
\<close>

theorem index_invariant:
  "reachable s \<Longrightarrow>
   length (chunks s) = sum_list (map (\<lambda>d. dm_chunks (snd d)) (documents s)) \<and>
   (\<forall>c \<in> set (chunks s). doc_id c \<in> fst ` set (documents s)) \<and>
   total_chunks (snd (get_document_stats s))
     = sum_list (map dm_chunks (stats_documents (snd (get_document_stats s))))"
proof (induction rule: reachable.induct)
  case reachable_init
  show ?case by (simp add: init_engine_def get_document_stats_def)
next
  case (reachable_add s uid pdf filename s' r)
  from add_document_success [OF reachable_add.hyps(3)] obtain t where
    c: "chunks s' = chunks s
            @ map (chunk_record uid filename) (enumerate 0 (create_chunks t 1000 100))"
    and d: "documents s' = dict_set uid
            \<lparr>dm_filename = filename,
             dm_chunks = length (create_chunks t 1000 100),
             total_chars = length t,
             preview = (if length t > 300 then take 300 t @ ''...'' else t)\<rparr>
            (documents s)"
    by blast
  from d reachable_add.hyps(2) have d': "documents s' = documents s @ [(uid,
            \<lparr>dm_filename = filename,
             dm_chunks = length (create_chunks t 1000 100),
             total_chars = length t,
             preview = (if length t > 300 then take 300 t @ ''...'' else t)\<rparr>)]"
    by (simp add: dict_set_fresh)
  from reachable_add.IH have ih1: "length (chunks s) = sum_list (map (\<lambda>d. dm_chunks (snd d)) (documents s))"
    and ih2: "\<forall>c \<in> set (chunks s). doc_id c \<in> fst ` set (documents s)"
    by simp_all
  have 1: "length (chunks s') = sum_list (map (\<lambda>d. dm_chunks (snd d)) (documents s'))"
    using ih1 by (simp add: c d')
  have 2: "\<forall>c \<in> set (chunks s'). doc_id c \<in> fst ` set (documents s')"
    using ih2 by (auto simp: c d' doc_id_chunk_record)
  have 3: "total_chunks (snd (get_document_stats s'))
     = sum_list (map dm_chunks (stats_documents (snd (get_document_stats s'))))"
    using 1 by (simp add: get_document_stats_def comp_def)
  from 1 2 3 show ?case by blast
qed

theorem index_invariant_witness:
  "reachable sample_engine \<and> length (chunks sample_engine) = 1 \<and>
   sum_list (map (\<lambda>d. dm_chunks (snd d)) (documents sample_engine)) = 1 \<and>
   list_all (\<lambda>c. doc_id c = ''doc-1'') (chunks sample_engine) \<and>
   map fst (documents sample_engine) = [''doc-1'']"
proof -
  have r: "reachable sample_engine"
    by (rule reachable_add [OF reachable_init _ sample_add]) (simp add: init_engine_def)
  have l: "length (chunks sample_engine) = 1" by code_simp
  have d: "list_all (\<lambda>c. doc_id c = ''doc-1'') (chunks sample_engine)" by code_simp
  have k: "map fst (documents sample_engine) = [''doc-1'']" by code_simp
  from index_invariant [OF r] r l d k show ?thesis by simp
qed

section \<open>Answers without retrieved content\<close>

text \<open>
  Claim C8. When the retriever returns no result for the question (asked for up to 3
  results), \<open>generate_answer\<close> returns the fixed no-relevant-information answer with an
  empty list of sources and \<open>context_used = 0\<close>, whatever the generation capability is,
  and the list of prompts the capability was invoked with is empty.
\<close>


theorem generate_answer_no_results:
  "snd (search_relevant_content s question 3) = [] \<Longrightarrow>
   generate_answer s generate question complexity_level =
     ([], Inr \<lparr>answer_text = no_information_answer, sources = [], context_used = 0\<rparr>)"
  by (simp add: generate_answer_def)

theorem generate_answer_no_results_witness:
  "snd (search_relevant_content sample_engine2 ''quantum physics'' 3) = [] \<and>
   generate_answer sample_engine2 (\<lambda>prompt. Inr prompt) ''quantum physics'' ''beginner'' =
     ([], Inr \<lparr>answer_text = no_information_answer, sources = [], context_used = 0\<rparr>)"
proof -
  have h: "snd (search_relevant_content sample_engine2 ''quantum physics'' 3) = []"
    by code_simp
  from generate_answer_no_results [OF h] h show ?thesis
    by simp
qed

section \<open>Scoring and ranking\<close>

lemma str_in_sublist: "str_in q t = sublist q t"
  by (induction t) (simp_all add: sublist_Cons_right)

lemma common_words_set:
  "set (filter (\<lambda>w. w \<in> set (remdups B)) (remdups A)) = set A \<inter> set B"
  by auto

lemma common_words_length:
  "length (filter (\<lambda>w. w \<in> set (remdups B)) (remdups A)) = card (set A \<inter> set B)"
proof -
  have "distinct (filter (\<lambda>w. w \<in> set (remdups B)) (remdups A))"
    by simp
  then have "card (set (filter (\<lambda>w. w \<in> set (remdups B)) (remdups A)))
      = length (filter (\<lambda>w. w \<in> set (remdups B)) (remdups A))"
    by (rule distinct_card)
  then show ?thesis
    by (simp only: common_words_set)
qed

lemma score_chunk_None:
  assumes "common_tokens query c = {}"
  shows "score_chunk (lower query) (remdups (findall_words (lower query))) c = None"
proof -
  have "set (filter (\<lambda>w. w \<in> set (remdups (findall_words (text_lower c))))
               (remdups (findall_words (lower query)))) = {}"
    using assms unfolding common_tokens_def by (simp only: common_words_set)
  then have "filter (\<lambda>w. w \<in> set (remdups (findall_words (text_lower c))))
               (remdups (findall_words (lower query))) = []"
    by (simp only: set_empty)
  then show ?thesis
    by (simp add: score_chunk_def Let_def)
qed

lemma score_chunk_Some:
  assumes "common_tokens query c \<noteq> {}"
  shows "score_chunk (lower query) (remdups (findall_words (lower query))) c =
     Some (spec_entry query c)"
proof -
  let ?cw = "filter (\<lambda>w. w \<in> set (remdups (findall_words (text_lower c))))
               (remdups (findall_words (lower query)))"
  have s: "set ?cw = common_tokens query c"
    unfolding common_tokens_def by (simp only: common_words_set)
  have l: "length ?cw = card (common_tokens query c)"
    unfolding common_tokens_def by (simp only: common_words_length)
  have q: "length (remdups (findall_words (lower query)))
             = card (set (findall_words (lower query)))"
    by (simp add: length_remdups_card_conv)
  have ne: "?cw \<noteq> []"
  proof
    assume e: "?cw = []"
    have "set ?cw = {}"
      unfolding e by simp
    with s have "common_tokens query c = {}"
      by (simp only:)
    with assms show False ..
  qed
  show ?thesis
    using ne l q
    by (simp add: score_chunk_def Let_def spec_score_def spec_entry_def str_in_sublist)
qed

lemma map_filter_score:
  "List.map_filter (score_chunk (lower query) (remdups (findall_words (lower query)))) cs
     = map (spec_entry query) (filter (\<lambda>c. common_tokens query c \<noteq> {}) cs)"
  by (induction cs) (simp_all add: List.map_filter_simps score_chunk_None score_chunk_Some)

lemma scored_chunks_spec:
  "scored_chunks s query
     = map (spec_entry query) (filter (\<lambda>c. common_tokens query c \<noteq> {}) (chunks s))"
  by (simp add: scored_chunks_def map_filter_score)

lemma slice_to_take: "\<exists>n. slice_to xs k = take n xs"
  by (auto simp: slice_to_def)

lemma set_search_subset:
  "set (snd (search_relevant_content s query max_results)) \<subseteq> set (scored_chunks s query)"
proof -
  obtain n where n: "slice_to (sort_by_score_desc (scored_chunks s query)) max_results
      = take n (sort_by_score_desc (scored_chunks s query))"
    using slice_to_take by blast
  have "set (take n (sort_by_score_desc (scored_chunks s query))) \<subseteq> set (scored_chunks s query)"
    using set_take_subset [of n "sort_by_score_desc (scored_chunks s query)"]
    by (simp add: sort_by_score_desc_def)
  with n show ?thesis
    by (simp add: search_relevant_content_def Let_def)
qed

lemma search_all:
  assumes c: "c \<in> set (chunks s)" and ne: "common_tokens query c \<noteq> {}"
    and k: "int (length (chunks s)) \<le> max_results"
  shows "snd (search_relevant_content s query max_results)
           = sort_by_score_desc (scored_chunks s query)"
proof -
  from c have c1: "chunks s \<noteq> []" by auto
  from ne have q1: "remdups (findall_words (lower query)) \<noteq> []"
    by (auto simp: common_tokens_def)
  have "length (scored_chunks s query) \<le> length (chunks s)"
    by (simp add: scored_chunks_spec)
  with k have "int (length (sort_by_score_desc (scored_chunks s query))) \<le> max_results"
    by (simp add: sort_by_score_desc_def)
  then have "slice_to (sort_by_score_desc (scored_chunks s query)) max_results
      = sort_by_score_desc (scored_chunks s query)"
    by (simp add: slice_to_def)
  with c1 q1 show ?thesis
    by (simp add: search_relevant_content_def Let_def)
qed

text \<open>
  Claim C2. Every entry that \<open>search_relevant_content\<close> returns is the entry of a stored
  chunk whose set of word tokens meets the query's: it carries that chunk's text, file
  name and ordinal index, the common tokens, and the score
  \<open>min (baseScore + phraseBonus + sequenceBonus) 1\<close> of the specification's rule
  (\<open>spec_score\<close>: base score \<open>|commonTokens| / |queryTokens|\<close>, phrase bonus \<open>3/10\<close> exactly
  when the lowercased query is a substring of the chunk's lowercased text, sequence bonus
  \<open>2/10\<close> exactly when more than one token is common). Every chunk with common tokens is
  returned with that entry when \<open>max_results\<close> is at least the number of stored chunks.
  A chunk without common tokens is not scored, and the scored chunks are exactly the
  entries of the chunks with common tokens, in index order. The statement holds for
  every query; for a query without tokens nothing is scored.
\<close>

theorem search_scores:
  "(\<forall>r \<in> set (snd (search_relevant_content s query max_results)).
      \<exists>c \<in> set (chunks s). common_tokens query c \<noteq> {} \<and> r = spec_entry query c) \<and>
   (\<forall>c \<in> set (chunks s).
      common_tokens query c \<noteq> {} \<and> int (length (chunks s)) \<le> max_results \<longrightarrow>
      spec_entry query c \<in> set (snd (search_relevant_content s query max_results))) \<and>
   (\<forall>c \<in> set (chunks s).
      common_tokens query c = {} \<longrightarrow>
      score_chunk (lower query) (remdups (findall_words (lower query))) c = None) \<and>
   scored_chunks s query
     = map (spec_entry query) (filter (\<lambda>c. common_tokens query c \<noteq> {}) (chunks s))"
proof -
  have 1: "\<forall>r \<in> set (snd (search_relevant_content s query max_results)).
      \<exists>c \<in> set (chunks s). common_tokens query c \<noteq> {} \<and> r = spec_entry query c"
  proof
    fix r assume "r \<in> set (snd (search_relevant_content s query max_results))"
    with set_search_subset have "r \<in> set (scored_chunks s query)"
      by blast
    then show "\<exists>c \<in> set (chunks s). common_tokens query c \<noteq> {} \<and> r = spec_entry query c"
      by (auto simp: scored_chunks_spec)
  qed
  have 2: "\<forall>c \<in> set (chunks s).
      common_tokens query c \<noteq> {} \<and> int (length (chunks s)) \<le> max_results \<longrightarrow>
      spec_entry query c \<in> set (snd (search_relevant_content s query max_results))"
  proof (intro ballI impI)
    fix c assume c: "c \<in> set (chunks s)"
      and h: "common_tokens query c \<noteq> {} \<and> int (length (chunks s)) \<le> max_results"
    from search_all [OF c] h
    have "snd (search_relevant_content s query max_results)
           = sort_by_score_desc (scored_chunks s query)"
      by blast
    moreover from c h have "spec_entry query c \<in> set (scored_chunks s query)"
      by (simp add: scored_chunks_spec)
    ultimately show "spec_entry query c \<in> set (snd (search_relevant_content s query max_results))"
      by (simp add: sort_by_score_desc_def)
  qed
  have 3: "\<forall>c \<in> set (chunks s).
      common_tokens query c = {} \<longrightarrow>
      score_chunk (lower query) (remdups (findall_words (lower query))) c = None"
    by (simp add: score_chunk_None)
  from 1 2 3 scored_chunks_spec show ?thesis
    by blast
qed

theorem search_scores_witness:
  "map similarity_score (snd (search_relevant_content sample_engine2 ''are mammal'' 3))
     = [4 / 5, 4 / 5] \<and>
   map (common_tokens ''are mammal'') (chunks sample_engine2) = [{''are''}, {''are''}] \<and>
   map (spec_score ''are mammal'') (chunks sample_engine2) = [4 / 5, 4 / 5] \<and>
   map (common_tokens ''fly'') (chunks sample_engine2) = [{''fly''}, {}] \<and>
   map sc_filename (snd (search_relevant_content sample_engine2 ''fly'' 3)) = [''animals.pdf'']"
proof -
  have a: "map (common_tokens ''are mammal'') (chunks sample_engine2) = [{''are''}, {''are''}]"
    by code_simp
  have b: "map (spec_score ''are mammal'') (chunks sample_engine2) = [4 / 5, 4 / 5]"
    by code_simp
  have c: "map (common_tokens ''fly'') (chunks sample_engine2) = [{''fly''}, {}]"
    by code_simp
  have d: "snd (search_relevant_content sample_engine2 ''are mammal'' 3)
      = sort_by_score_desc (scored_chunks sample_engine2 ''are mammal'')"
    by code_simp
  have e: "snd (search_relevant_content sample_engine2 ''fly'' 3)
      = sort_by_score_desc (scored_chunks sample_engine2 ''fly'')"
    by code_simp
  have l: "length (chunks sample_engine2) = 2"
    by code_simp
  from l obtain c1 c2 where cs: "chunks sample_engine2 = [c1, c2]"
    by (auto simp: length_Suc_conv numeral_2_eq_2)
  from search_scores [of sample_engine2 "''are mammal''" 3]
  have f: "scored_chunks sample_engine2 ''are mammal''
     = map (spec_entry ''are mammal'')
         (filter (\<lambda>c. common_tokens ''are mammal'' c \<noteq> {}) (chunks sample_engine2))"
    by blast
  from search_scores [of sample_engine2 "''fly''" 3]
  have g: "scored_chunks sample_engine2 ''fly''
     = map (spec_entry ''fly'')
         (filter (\<lambda>c. common_tokens ''fly'' c \<noteq> {}) (chunks sample_engine2))"
    by blast
  have h: "map sc_filename (map (spec_entry ''fly'') (chunks sample_engine2))
      = [''animals.pdf'', ''whales.pdf'']"
    by code_simp
  have 1: "map similarity_score (snd (search_relevant_content sample_engine2 ''are mammal'' 3))
     = [4 / 5, 4 / 5]"
    using a b unfolding d f cs
    by (simp add: sort_by_score_desc_def spec_entry_def)
  have 2: "map sc_filename (snd (search_relevant_content sample_engine2 ''fly'' 3))
     = [''animals.pdf'']"
    using c h unfolding e g cs
    by (simp add: sort_by_score_desc_def)
  from 1 2 a b c show ?thesis by blast
qed




lemma sorted_desc_sort:
  "sorted_wrt (\<lambda>a b. similarity_score b \<le> similarity_score a) (sort_by_score_desc xs)"
proof -
  have "sorted (map (\<lambda>x. - similarity_score x) (sort_key (\<lambda>x. - similarity_score x) xs))"
    by (rule sorted_sort_key)
  then show ?thesis
    by (simp add: sorted_map sort_by_score_desc_def)
qed

lemma stable_sort_desc:
  "filter (\<lambda>r. similarity_score r = v) (sort_by_score_desc xs)
     = filter (\<lambda>r. similarity_score r = v) xs"
proof -
  have "filter (\<lambda>r. - similarity_score r = - v) (sort_key (\<lambda>x. - similarity_score x) xs)
      = filter (\<lambda>r. - similarity_score r = - v) xs"
    by (rule sort_key_stable)
  then show ?thesis
    by (simp add: sort_by_score_desc_def)
qed

lemma search_cases:
  "snd (search_relevant_content s query max_results) = [] \<or>
   snd (search_relevant_content s query max_results)
     = slice_to (sort_by_score_desc (scored_chunks s query)) max_results"
  by (simp add: search_relevant_content_def Let_def)

lemma length_slice_to: "0 \<le> k \<Longrightarrow> int (length (slice_to xs k)) \<le> k"
  by (simp add: slice_to_def)

text \<open>
  Claim C5. For every query and every state of the index, the result list is sorted by
  score in descending order, and for every score the results with that score are an
  initial part of the scored chunks with that score taken in index (encounter) order:
  ties keep their insertion order, and among tied chunks the earlier ones are returned.
  Both hold for every integer \<open>max_results\<close>. \<open>max_results\<close> is a count; for every
  count (every value that is not negative) the list has at most \<open>max_results\<close> entries.
\<close>

theorem search_ranking:
  "sorted_wrt (\<lambda>a b. similarity_score b \<le> similarity_score a)
     (snd (search_relevant_content s query max_results)) \<and>
   (\<forall>v. prefix
          (filter (\<lambda>r. similarity_score r = v)
             (snd (search_relevant_content s query max_results)))
          (filter (\<lambda>r. similarity_score r = v) (scored_chunks s query))) \<and>
   (0 \<le> max_results \<longrightarrow>
      int (length (snd (search_relevant_content s query max_results))) \<le> max_results)"
proof -
  let ?rs = "snd (search_relevant_content s query max_results)"
  let ?sorted = "sort_by_score_desc (scored_chunks s query)"
  obtain n where m: "slice_to ?sorted max_results = take n ?sorted"
    using slice_to_take by blast
  have n: "?rs = [] \<or> ?rs = take n ?sorted"
    using search_cases [of s query max_results] unfolding m .
  have 1: "sorted_wrt (\<lambda>a b. similarity_score b \<le> similarity_score a) ?rs"
    using n sorted_desc_sort [of "scored_chunks s query"]
    by (auto intro: sorted_wrt_take)
  have 2: "prefix (filter (\<lambda>r. similarity_score r = v) ?rs)
          (filter (\<lambda>r. similarity_score r = v) (scored_chunks s query))" for v
  proof -
    from n show ?thesis
    proof
      assume "?rs = []"
      then show ?thesis by simp
    next
      assume t: "?rs = take n ?sorted"
      have "prefix (take n ?sorted) ?sorted"
        by (rule take_is_prefix)
      then have "prefix (filter (\<lambda>r. similarity_score r = v) (take n ?sorted))
                   (filter (\<lambda>r. similarity_score r = v) ?sorted)"
        by (rule filter_mono_prefix)
      then show ?thesis
        by (simp only: t stable_sort_desc)
    qed
  qed
  have 3: "int (length ?rs) \<le> max_results" if "0 \<le> max_results"
    using search_cases [of s query max_results] length_slice_to [OF that] that
    by auto
  from 1 2 3 show ?thesis
    by blast
qed

theorem search_ranking_witness:
  "(0::int) \<le> 1 \<and> length (snd (search_relevant_content sample_engine2 ''are mammal'' 1)) \<le> 1 \<and>
   map similarity_score (scored_chunks sample_engine2 ''are mammal'') = [4 / 5, 4 / 5] \<and>
   prefix (snd (search_relevant_content sample_engine2 ''are mammal'' 1))
          (scored_chunks sample_engine2 ''are mammal'')"
proof -
  have a: "map similarity_score (scored_chunks sample_engine2 ''are mammal'') = [4 / 5, 4 / 5]"
    by code_simp
  then have all: "filter (\<lambda>r. similarity_score r = 4 / 5) (scored_chunks sample_engine2 ''are mammal'')
      = scored_chunks sample_engine2 ''are mammal''"
    by (auto simp: filter_id_conv)
  note sr = search_ranking [of sample_engine2 "''are mammal''" 1]
  from sr have l: "int (length (snd (search_relevant_content sample_engine2 ''are mammal'' 1))) \<le> 1"
    by simp
  from sr have p: "prefix (filter (\<lambda>r. similarity_score r = 4 / 5)
                     (snd (search_relevant_content sample_engine2 ''are mammal'' 1)))
                   (filter (\<lambda>r. similarity_score r = 4 / 5)
                     (scored_chunks sample_engine2 ''are mammal''))"
    by blast
  have sub: "set (snd (search_relevant_content sample_engine2 ''are mammal'' 1))
      \<subseteq> set (scored_chunks sample_engine2 ''are mammal'')"
    by (rule set_search_subset)
  have "\<forall>r \<in> set (scored_chunks sample_engine2 ''are mammal''). similarity_score r = 4 / 5"
    using all by (simp add: filter_id_conv)
  with sub have "filter (\<lambda>r. similarity_score r = 4 / 5)
                     (snd (search_relevant_content sample_engine2 ''are mammal'' 1))
      = snd (search_relevant_content sample_engine2 ''are mammal'' 1)"
    by (auto simp: filter_id_conv)
  with p all have "prefix (snd (search_relevant_content sample_engine2 ''are mammal'' 1))
          (scored_chunks sample_engine2 ''are mammal'')"
    by simp
  with l a show ?thesis by simp
qed

section \<open>Chunker lemmas\<close>

lemma terminator_not_space: "is_terminator c \<Longrightarrow> \<not> is_space c"
  by (auto simp: is_terminator_def is_space_def)

lemma strip_solid: "strip s = [] \<or> solid (strip s)"
proof (cases "strip s = []")
  case True
  then show ?thesis by simp
next
  case False
  let ?a = "dropWhile is_space s"
  let ?b = "dropWhile is_space (rev ?a)"
  from False have b: "?b \<noteq> []"
    by (simp add: strip_def)
  then have hb: "\<not> is_space (hd ?b)"
    by (rule hd_dropWhile)
  have a: "?a \<noteq> []"
  proof
    assume e: "?a = []"
    have "?b = []"
      unfolding e by simp
    with b show False ..
  qed
  then have ha: "\<not> is_space (hd ?a)"
    by (rule hd_dropWhile)
  obtain pre where pre: "rev ?a = pre @ ?b"
    by (metis takeWhile_dropWhile_id)
  from b pre have "last ?b = last (rev ?a)"
    by (metis last_appendR)
  also from a have "\<dots> = hd ?a"
    by (simp add: last_rev)
  finally have lb: "last ?b = hd ?a" .
  have 1: "hd (strip s) = hd ?a"
    using b lb by (simp add: strip_def hd_rev)
  have 2: "last (strip s) = hd ?b"
    using b by (simp add: strip_def last_rev)
  from False ha hb 1 2 show ?thesis
    by (simp add: solid_def)
qed

lemma strip_of_solid: "solid s \<Longrightarrow> strip s = s"
proof -
  assume s: "solid s"
  then obtain c cs where cs: "s = c # cs" and c: "\<not> is_space c"
    by (cases s) (auto simp: solid_def)
  from c cs have 1: "dropWhile is_space s = s"
    by simp
  from s have "rev s \<noteq> []" "\<not> is_space (hd (rev s))"
    by (simp_all add: solid_def hd_rev)
  then have 2: "dropWhile is_space (rev s) = rev s"
    by (cases "rev s") auto
  show ?thesis
    by (simp add: strip_def 1 2)
qed

lemma join_snoc: "b \<noteq> [] \<Longrightarrow> str_join sep (b @ [x]) = str_join sep b @ sep @ x"
  by (induction sep b rule: str_join.induct) auto

lemma join_solid:
  "b \<noteq> [] \<Longrightarrow> \<forall>x \<in> set b. solid x \<Longrightarrow> solid (str_join '' '' b)"
proof (induction "'' ''" b rule: str_join.induct)
  case 1
  then show ?case by simp
next
  case (2 x)
  then show ?case by simp
next
  case (3 x y r)
  then have "solid (str_join '' '' (y # r))" "solid x"
    by simp_all
  then show ?case
    by (auto simp: solid_def)
qed

lemma drop_seeds_snoc:
  "drop_seeds prev (bs @ [b]) =
     drop_seeds prev bs @ (if length (last (prev # bs)) > 2 then drop 2 b else b)"
  by (induction bs arbitrary: prev) auto

lemma chunks_bounded_snoc:
  "chunks_bounded cs prev (bs @ [b]) =
     (chunks_bounded cs prev bs \<and> chunk_bounded cs (last (prev # bs)) b)"
  by (induction bs arbitrary: prev) auto

lemma split_pieces_solid:
  assumes "cur \<noteq> [] \<longrightarrow> \<not> is_space (hd cur)"
    and "cur = [] \<longrightarrow> s = [] \<or> \<not> is_space (hd s)"
    and "s \<noteq> [] \<longrightarrow> \<not> is_space (last s)"
    and "s = [] \<longrightarrow> cur \<noteq> [] \<and> \<not> is_space (last cur)"
  shows "\<forall>p \<in> set (re_split_aux cur s). solid p"
  using assms
proof (induction cur s rule: re_split_aux.induct)
  case (1 cur)
  then show ?case
    by (simp add: solid_def)
next
  case (2 cur c cs)
  show ?case
  proof (cases "is_space c \<and> cur \<noteq> [] \<and> is_terminator (last cur)")
    case True
    with "2.prems" have sc: "solid cur"
      by (simp add: solid_def terminator_not_space)
    from True "2.prems"(3) have csne: "cs \<noteq> []"
      by auto
    with "2.prems"(3) have lcs: "\<not> is_space (last cs)"
      by simp
    with csne have dne: "dropWhile is_space cs \<noteq> []"
      by (metis dropWhile_eq_Nil_conv last_in_set)
    then have hd': "\<not> is_space (hd (dropWhile is_space cs))"
      by (rule hd_dropWhile)
    obtain pre where "cs = pre @ dropWhile is_space cs"
      by (metis takeWhile_dropWhile_id)
    with dne have "last (dropWhile is_space cs) = last cs"
      by (metis last_appendR)
    with lcs have l': "\<not> is_space (last (dropWhile is_space cs))"
      by simp
    have "\<forall>p \<in> set (re_split_aux [] (dropWhile is_space cs)). solid p"
      using True dne hd' l' by (intro "2.IH"(1)) simp_all
    with True sc show ?thesis
      by simp
  next
    case False
    have a: "cur @ [c] \<noteq> [] \<longrightarrow> \<not> is_space (hd (cur @ [c]))"
      using "2.prems"(1,2) by (cases cur) auto
    have b: "cs \<noteq> [] \<longrightarrow> \<not> is_space (last cs)"
      using "2.prems"(3) by auto
    have c: "cs = [] \<longrightarrow> cur @ [c] \<noteq> [] \<and> \<not> is_space (last (cur @ [c]))"
      using "2.prems"(3) by auto
    have "\<forall>p \<in> set (re_split_aux (cur @ [c]) cs). solid p"
      using False a b c by (intro "2.IH"(2)) simp_all
    moreover from False have "re_split_aux cur (c # cs) = re_split_aux (cur @ [c]) cs"
      by auto
    ultimately show ?thesis
      by simp
  qed
qed

lemma split_sentences_solid: "solid t \<Longrightarrow> \<forall>p \<in> set (split_sentences t). solid p"
  unfolding split_sentences_def
  by (rule split_pieces_solid) (simp_all add: solid_def)

lemma re_split_aux_ne: "re_split_aux cur s \<noteq> []"
  by (induction cur s rule: re_split_aux.induct) auto

lemma split_sentences_ne: "split_sentences t \<noteq> []"
  by (simp add: split_sentences_def re_split_aux_ne)

lemma preprocess_solid: "preprocess_text t = [] \<or> solid (preprocess_text t)"
  by (simp add: preprocess_text_def Let_def strip_solid)

lemma chunk_step_close:
  assumes "int (length cur) + int (length x) + 1 > cs" and "cur \<noteq> []"
  shows "chunk_step cs (cks, cur, buf) x =
     (cks @ [\<lparr>chunk_text = strip cur, chunk_length = length cur,
                  sentence_count = length buf\<rparr>],
      if length buf > 2
      then (str_join '' '' (drop (length buf - 2) buf) @ '' '' @ x,
            drop (length buf - 2) buf @ [x])
      else (x, [x]))"
  using assms by (simp add: chunk_step_def Let_def)

lemma chunk_step_append:
  assumes "\<not> (int (length cur) + int (length x) + 1 > cs \<and> cur \<noteq> [])"
  shows "chunk_step cs (cks, cur, buf) x =
     (cks, (if cur \<noteq> [] then cur @ '' '' @ x else x), buf @ [x])"
  using assms by (auto simp: chunk_step_def Let_def)

lemma chunk_step_inv:
  assumes inv: "chunk_inv cs xs st bufs"
    and sx: "\<forall>y \<in> set xs. solid y"
    and x: "solid x"
  shows "\<exists>bufs'. chunk_inv cs (xs @ [x]) (chunk_step cs st x) bufs'"
proof -
  obtain cks cur buf where st: "st = (cks, cur, buf)"
    by (cases st) auto
  from inv have i1: "cks = map chunk_of_sentences bufs"
    and i2: "cur = str_join '' '' buf"
    and i3: "drop_seeds [] (bufs @ [buf]) = xs"
    and i4: "xs \<noteq> [] \<longrightarrow> buf \<noteq> []"
    and i5: "set buf \<subseteq> set xs"
    and i6: "\<forall>b \<in> set bufs. b \<noteq> [] \<and> set b \<subseteq> set xs"
    and i7: "bufs \<noteq> [] \<and> length (last bufs) > 2 \<longrightarrow> length buf \<ge> 2"
    and i8: "chunks_bounded cs [] (bufs @ [buf])"
    unfolding chunk_inv_def st by simp_all
  have cur_solid: "solid cur" if "buf \<noteq> []"
    unfolding i2 using that i5 sx by (intro join_solid) auto
  have buf_ne: "buf \<noteq> []" if "cur \<noteq> []"
    using that i2 by auto
  from i6 have i6': "\<forall>b \<in> set bufs. b \<noteq> [] \<and> set b \<subseteq> set (xs @ [x])"
    by auto
  show ?thesis
  proof (cases "int (length cur) + int (length x) + 1 > cs \<and> cur \<noteq> []")
    case True
    then have bne: "buf \<noteq> []"
      using buf_ne by simp
    then have "strip cur = cur"
      using cur_solid strip_of_solid by simp
    then have new: "\<lparr>chunk_text = strip cur, chunk_length = length cur,
                  sentence_count = length buf\<rparr> = chunk_of_sentences buf"
      by (simp add: chunk_of_sentences_def i2)
    have c1: "cks @ [chunk_of_sentences buf] = map chunk_of_sentences (bufs @ [buf])"
      by (simp add: i1)
    have cl: "chunk_step cs st x =
       (map chunk_of_sentences bufs @ [chunk_of_sentences buf],
        if length buf > 2
        then (str_join '' '' (drop (length buf - 2) buf) @ '' '' @ x,
              drop (length buf - 2) buf @ [x])
        else (x, [x]))"
      unfolding st using True chunk_step_close [where cur = cur and x = x and cs = cs and cks = cks and buf = buf] new i1
      by simp
    show ?thesis
    proof (cases "length buf > 2")
      case long: True
      let ?ov = "drop (length buf - 2) buf"
      from long have lov: "length ?ov = 2"
        by simp
      then have ovne: "?ov \<noteq> []"
        by auto
      have step: "chunk_step cs st x =
          (map chunk_of_sentences (bufs @ [buf]), str_join '' '' (?ov @ [x]), ?ov @ [x])"
        using long unfolding cl
        by (simp add: join_snoc [OF ovne])
      have ds: "drop_seeds [] ((bufs @ [buf]) @ [?ov @ [x]]) = xs @ [x]"
        using long lov by (simp only: drop_seeds_snoc [of _ "bufs @ [buf]"] i3) simp
      have sub: "set (?ov @ [x]) \<subseteq> set (xs @ [x])"
        using i5 set_drop_subset [of "length buf - 2" buf] by auto
      have fit: "chunks_bounded cs [] ((bufs @ [buf]) @ [?ov @ [x]])"
        using long i8 by (simp only: chunks_bounded_snoc [of _ _ "bufs @ [buf]"])
          (simp add: chunk_bounded_def)
      have "chunk_inv cs (xs @ [x]) (chunk_step cs st x) (bufs @ [buf])"
        unfolding step chunk_inv_def
        using ds sub fit i6' bne i5 lov by auto
      then show ?thesis ..
    next
      case short: False
      have step: "chunk_step cs st x =
          (map chunk_of_sentences (bufs @ [buf]), str_join '' '' [x], [x])"
        using short unfolding cl
        by simp
      have ds: "drop_seeds [] ((bufs @ [buf]) @ [[x]]) = xs @ [x]"
        using short by (simp only: drop_seeds_snoc [of _ "bufs @ [buf]"] i3) simp
      have fit: "chunks_bounded cs [] ((bufs @ [buf]) @ [[x]])"
        using i8 by (simp only: chunks_bounded_snoc [of _ _ "bufs @ [buf]"])
          (simp add: chunk_bounded_def)
      have "chunk_inv cs (xs @ [x]) (chunk_step cs st x) (bufs @ [buf])"
        unfolding step chunk_inv_def
        using ds fit i6' bne i5 short by auto
      then show ?thesis ..
    qed
  next
    case False
    show ?thesis
    proof (cases "cur = []")
      case empty: True
      then have b0: "buf = []"
        using cur_solid by (auto simp: solid_def)
      with i4 have x0: "xs = []"
        by auto
      with i6 have bufs0: "bufs = []"
        by (cases bufs) auto
      have step: "chunk_step cs st x = ([], str_join '' '' [x], [x])"
        using False empty unfolding st
        by (simp add: chunk_step_append b0 i1 bufs0)
      have "chunk_inv cs (xs @ [x]) (chunk_step cs st x) []"
        unfolding step chunk_inv_def
        by (simp add: x0 chunk_bounded_def)
      then show ?thesis ..
    next
      case nonempty: False
      then have bne: "buf \<noteq> []"
        using buf_ne by simp
      from False nonempty have le: "int (length cur) + int (length x) + 1 \<le> cs"
        by simp
      have step: "chunk_step cs st x =
          (map chunk_of_sentences bufs, str_join '' '' (buf @ [x]), buf @ [x])"
        using False nonempty unfolding st
        by (simp add: chunk_step_append i1 join_snoc [OF bne] i2)
      have ds: "drop_seeds [] (bufs @ [buf @ [x]]) = xs @ [x]"
      proof (cases "length (last ([] # bufs)) > 2")
        case True
        then have "bufs \<noteq> []"
          by auto
        with True i7 have "length buf \<ge> 2"
          by simp
        then have "drop 2 (buf @ [x]) = drop 2 buf @ [x]"
          by simp
        with True show ?thesis
          using i3 by (simp add: drop_seeds_snoc)
      next
        case False
        then show ?thesis
          using i3 by (simp add: drop_seeds_snoc)
      qed
      have "int (length (str_join '' '' (buf @ [x]))) \<le> cs"
        using le by (simp add: join_snoc [OF bne] i2)
      then have fit: "chunks_bounded cs [] (bufs @ [buf @ [x]])"
        using i8 by (simp add: chunks_bounded_snoc chunk_bounded_def)
      have "chunk_inv cs (xs @ [x]) (chunk_step cs st x) bufs"
        unfolding step chunk_inv_def
        using ds fit i6' bne i5 i7 by auto
      then show ?thesis ..
    qed
  qed
qed

lemma chunk_loop_snoc: "chunk_loop cs (xs @ [x]) = chunk_step cs (chunk_loop cs xs) x"
  by (simp add: chunk_loop_def)

lemma chunk_loop_inv:
  "\<forall>y \<in> set xs. solid y \<Longrightarrow> \<exists>bufs. chunk_inv cs xs (chunk_loop cs xs) bufs"
proof (induction xs rule: rev_induct)
  case Nil
  have "chunk_inv cs [] (chunk_loop cs []) []"
    by (simp add: chunk_inv_def chunk_loop_def chunk_bounded_def)
  then show ?case ..
next
  case (snoc x xs)
  then obtain bufs where "chunk_inv cs xs (chunk_loop cs xs) bufs"
    by auto
  from chunk_step_inv [OF this] snoc.prems show ?case
    by (simp add: chunk_loop_snoc)
qed

text \<open>The chunks of a text whose cleaned form is not empty, as chunks of sentence buffers.\<close>

lemma create_chunks_buffers:
  assumes "preprocess_text t \<noteq> []"
  shows "\<exists>bufs. create_chunks t cs ov = map chunk_of_sentences bufs \<and> bufs \<noteq> [] \<and>
           drop_seeds [] bufs = split_sentences (preprocess_text t) \<and>
           chunks_bounded cs [] bufs \<and>
           (\<forall>b \<in> set bufs. b \<noteq> [] \<and>
                 set b \<subseteq> set (split_sentences (preprocess_text t)))"
proof -
  let ?xs = "split_sentences (preprocess_text t)"
  from assms preprocess_solid [of t] have "solid (preprocess_text t)"
    by simp
  then have sol: "\<forall>y \<in> set ?xs. solid y"
    by (rule split_sentences_solid)
  from chunk_loop_inv [OF this] obtain bufs where inv: "chunk_inv cs ?xs (chunk_loop cs ?xs) bufs"
    by blast
  obtain cks cur buf where st: "chunk_loop cs ?xs = (cks, cur, buf)"
    by (cases "chunk_loop cs ?xs") auto
  from inv have i1: "cks = map chunk_of_sentences bufs"
    and i2: "cur = str_join '' '' buf"
    and i3: "drop_seeds [] (bufs @ [buf]) = ?xs"
    and i4: "buf \<noteq> []"
    and i5: "set buf \<subseteq> set ?xs"
    and i6: "\<forall>b \<in> set bufs. b \<noteq> [] \<and> set b \<subseteq> set ?xs"
    and i8: "chunks_bounded cs [] (bufs @ [buf])"
    unfolding chunk_inv_def st using split_sentences_ne [of "preprocess_text t"] by simp_all
  have "solid cur"
    unfolding i2 using i4 i5 sol by (intro join_solid) auto
  then have sc: "strip cur = cur" and cne: "cur \<noteq> []"
    by (simp_all add: strip_of_solid solid_def)
  have "create_chunks t cs ov =
      cks @ [\<lparr>chunk_text = cur, chunk_length = length cur, sentence_count = length buf\<rparr>]"
    by (simp add: create_chunks_def Let_def st sc cne)
  then have "create_chunks t cs ov = map chunk_of_sentences (bufs @ [buf])"
    by (simp add: i1 i2 chunk_of_sentences_def)
  with i3 i4 i5 i6 i8 show ?thesis
    by (intro exI [of _ "bufs @ [buf]"]) auto
qed


section \<open>Chunk size\<close>


lemma last_two: "2 \<le> length b \<Longrightarrow> drop (length b - 2) b = [b ! (length b - 2), b ! (length b - 1)]"
proof -
  assume l: "2 \<le> length b"
  then have a: "length b - 2 < length b" and e: "Suc (length b - 2) = length b - 1"
    and b: "length b - 1 < length b" and f: "Suc (length b - 1) = length b"
    by simp_all
  have "drop (length b - 2) b = b ! (length b - 2) # drop (Suc (length b - 2)) b"
    using a by (simp only: Cons_nth_drop_Suc)
  also have "drop (Suc (length b - 2)) b = b ! (length b - 1) # drop (Suc (length b - 1)) b"
    unfolding e using b by (simp only: Cons_nth_drop_Suc)
  also have "drop (Suc (length b - 1)) b = []"
    unfolding f by simp
  finally show ?thesis .
qed



lemma five_sentences_chunks:
  "create_chunks ''Aa. Bb. Cc. Dddddddd. Eeeeeeee.'' 12 100 =
     [\<lparr>chunk_text = ''Aa. Bb. Cc.'', chunk_length = 11, sentence_count = 3\<rparr>,
      \<lparr>chunk_text = ''Bb. Cc. Dddddddd.'', chunk_length = 17, sentence_count = 3\<rparr>,
      \<lparr>chunk_text = ''Cc. Dddddddd. Eeeeeeee.'', chunk_length = 23, sentence_count = 3\<rparr>]"
  by code_simp

lemma five_sentences_split:
  "split_sentences (preprocess_text ''Aa. Bb. Cc. Dddddddd. Eeeeeeee.'') =
     [''Aa.'', ''Bb.'', ''Cc.'', ''Dddddddd.'', ''Eeeeeeee.'']"
  by code_simp



section \<open>Overlap\<close>

text \<open>
  Claim C4. At every chunk boundary of the loop of \<open>create_chunks\<close> (the state reached
  after some sentences has a non-empty current chunk, and the projected length with the
  next sentence exceeds \<open>chunk_size\<close>), the current chunk is emitted with its sentence
  count, and the new current chunk is: when the closed buffer had more than 2 sentences,
  its last two sentences and the current sentence, verbatim, joined by single spaces, the
  new buffer being those three sentences; when it had 2 sentences or fewer, the current
  sentence alone.
\<close>

theorem chunk_boundary_overlap:
  assumes "chunk_loop chunk_size sentences = (cks, current_chunk, sentence_buffer)"
    and "int (length current_chunk) + int (length sentence) + 1 > chunk_size"
    and "current_chunk \<noteq> []"
  shows "chunk_loop chunk_size (sentences @ [sentence]) =
     (cks @ [\<lparr>chunk_text = strip current_chunk, chunk_length = length current_chunk,
               sentence_count = length sentence_buffer\<rparr>],
      if length sentence_buffer > 2
      then (sentence_buffer ! (length sentence_buffer - 2) @ '' ''
              @ sentence_buffer ! (length sentence_buffer - 1) @ '' '' @ sentence,
            [sentence_buffer ! (length sentence_buffer - 2),
             sentence_buffer ! (length sentence_buffer - 1), sentence])
      else (sentence, [sentence]))"
proof (cases "length sentence_buffer > 2")
  case True
  then have "drop (length sentence_buffer - 2) sentence_buffer
      = [sentence_buffer ! (length sentence_buffer - 2),
         sentence_buffer ! (length sentence_buffer - 1)]"
    by (intro last_two) simp
  with True assms show ?thesis
    by (simp add: chunk_loop_snoc chunk_step_close)
next
  case False
  with assms show ?thesis
    by (simp add: chunk_loop_snoc chunk_step_close)
qed

theorem chunk_boundary_overlap_witness:
  "chunk_loop 12 [''Aa.'', ''Bb.'', ''Cc.'', ''Dddddddd.''] =
     ([\<lparr>chunk_text = ''Aa. Bb. Cc.'', chunk_length = 11, sentence_count = 3\<rparr>],
      ''Bb. Cc. Dddddddd.'', [''Bb.'', ''Cc.'', ''Dddddddd.'']) \<and>
   chunk_loop 6 [''Aa.'', ''Bb.''] =
     ([\<lparr>chunk_text = ''Aa.'', chunk_length = 3, sentence_count = 1\<rparr>],
      ''Bb.'', [''Bb.''])"
proof -
  have a: "chunk_loop 12 [''Aa.'', ''Bb.'', ''Cc.'']
      = ([], ''Aa. Bb. Cc.'', [''Aa.'', ''Bb.'', ''Cc.''])"
    by code_simp
  have s: "strip ''Aa. Bb. Cc.'' = ''Aa. Bb. Cc.''"
    by code_simp
  from chunk_boundary_overlap [OF a, of "''Dddddddd.''"] s
  have 1: "chunk_loop 12 [''Aa.'', ''Bb.'', ''Cc.'', ''Dddddddd.''] =
     ([\<lparr>chunk_text = ''Aa. Bb. Cc.'', chunk_length = 11, sentence_count = 3\<rparr>],
      ''Bb. Cc. Dddddddd.'', [''Bb.'', ''Cc.'', ''Dddddddd.''])"
    by simp
  have b: "chunk_loop 6 [''Aa.''] = ([], ''Aa.'', [''Aa.''])"
    by code_simp
  have t: "strip ''Aa.'' = ''Aa.''"
    by code_simp
  from chunk_boundary_overlap [OF b, of "''Bb.''"] t
  have 2: "chunk_loop 6 [''Aa.'', ''Bb.''] =
     ([\<lparr>chunk_text = ''Aa.'', chunk_length = 3, sentence_count = 1\<rparr>],
      ''Bb.'', [''Bb.''])"
    by simp
  from 1 2 show ?thesis ..
qed

section \<open>No sentence is dropped\<close>

lemma in_drop_seeds: "x \<in> set (drop_seeds prev bufs) \<Longrightarrow> \<exists>b \<in> set bufs. x \<in> set b"
  by (induction bufs arbitrary: prev) (auto split: if_splits dest: in_set_dropD)

lemma sublist_join: "x \<in> set b \<Longrightarrow> sublist x (str_join sep b)"
proof (induction sep b rule: str_join.induct)
  case (1 sep)
  then show ?case by simp
next
  case (2 sep y)
  then show ?case by simp
next
  case (3 sep y z r)
  show ?case
  proof (cases "x = y")
    case True
    then show ?thesis by simp
  next
    case False
    with 3 have "sublist x (str_join sep (z # r))"
      by simp
    then obtain ps ss where "str_join sep (z # r) = ps @ x @ ss"
      by (auto simp: sublist_def)
    then have "str_join sep (y # z # r) = (y @ sep @ ps) @ x @ ss"
      by simp
    then show ?thesis
      unfolding sublist_def by blast
  qed
qed


text \<open>
  Claim C6. For every text whose cleaned form is not empty, the emitted chunks are the
  chunks of a sequence of sentence buffers (each chunk's text is its buffer's sentences
  joined by spaces, its sentence count the buffer's length) such that concatenating the
  buffers in order, after dropping the two overlap seeds of every buffer that follows a
  buffer of more than two sentences, gives exactly the sentence sequence of the cleaned
  text; and every sentence of that sequence occurs in the text of some emitted chunk.
\<close>

theorem chunks_cover_sentences:
  assumes "preprocess_text t \<noteq> []"
  shows "\<exists>bufs.
           create_chunks t chunk_size overlap = map chunk_of_sentences bufs \<and>
           drop_seeds [] bufs = split_sentences (preprocess_text t) \<and>
           (\<forall>x \<in> set (split_sentences (preprocess_text t)).
              \<exists>c \<in> set (create_chunks t chunk_size overlap). sublist x (chunk_text c))"
proof -
  from create_chunks_buffers [OF assms, of chunk_size overlap] obtain bufs where
    out: "create_chunks t chunk_size overlap = map chunk_of_sentences bufs"
    and ds: "drop_seeds [] bufs = split_sentences (preprocess_text t)"
    by blast
  have "\<exists>c \<in> set (create_chunks t chunk_size overlap). sublist x (chunk_text c)"
    if "x \<in> set (split_sentences (preprocess_text t))" for x
  proof -
    from that ds have "x \<in> set (drop_seeds [] bufs)"
      by simp
    then obtain b where b: "b \<in> set bufs" and x: "x \<in> set b"
      using in_drop_seeds by blast
    from x have "sublist x (chunk_text (chunk_of_sentences b))"
      by (simp add: chunk_of_sentences_def sublist_join)
    with b out show ?thesis
      by auto
  qed
  with out ds show ?thesis
    by blast
qed

theorem chunks_cover_sentences_witness:
  "preprocess_text ''Aa. Bb. Cc. Dddddddd. Eeeeeeee.'' \<noteq> [] \<and>
   (\<exists>bufs. map chunk_of_sentences bufs =
             [\<lparr>chunk_text = ''Aa. Bb. Cc.'', chunk_length = 11, sentence_count = 3\<rparr>,
              \<lparr>chunk_text = ''Bb. Cc. Dddddddd.'', chunk_length = 17, sentence_count = 3\<rparr>,
              \<lparr>chunk_text = ''Cc. Dddddddd. Eeeeeeee.'', chunk_length = 23,
                 sentence_count = 3\<rparr>] \<and>
           drop_seeds [] bufs = [''Aa.'', ''Bb.'', ''Cc.'', ''Dddddddd.'', ''Eeeeeeee.''])"
proof -
  have ne: "preprocess_text ''Aa. Bb. Cc. Dddddddd. Eeeeeeee.'' \<noteq> []"
    by code_simp
  from chunks_cover_sentences [OF ne, of 12 100] ne show ?thesis
    unfolding five_sentences_chunks five_sentences_split
    by metis
qed

section \<open>Documents without content\<close>

lemma in_dropWhile: "x \<in> set xs \<Longrightarrow> \<not> P x \<Longrightarrow> x \<in> set (dropWhile P xs)"
  by (induction xs) auto

lemma in_sub_runs: "x \<in> set s \<Longrightarrow> \<not> P x \<Longrightarrow> x \<in> set (sub_runs P s)"
proof (induction P s rule: sub_runs.induct)
  case (1 P)
  then show ?case by simp
next
  case (2 P c cs)
  then show ?case
    by (auto dest: in_dropWhile)
qed

lemma in_strip: "x \<in> set s \<Longrightarrow> \<not> is_space x \<Longrightarrow> x \<in> set (strip s)"
proof -
  assume a: "x \<in> set s" and b: "\<not> is_space x"
  then have "x \<in> set (rev (dropWhile is_space s))"
    by (simp add: in_dropWhile)
  then have "x \<in> set (dropWhile is_space (rev (dropWhile is_space s)))"
    using b by (rule in_dropWhile)
  then show ?thesis
    by (simp add: strip_def)
qed

lemma preprocess_keeps:
  assumes "x \<in> set t" and "\<not> is_space x" and "is_kept x"
  shows "x \<in> set (preprocess_text t)"
proof -
  have sp: "x \<noteq> CHR '' ''"
    using assms(2) by (auto simp: is_space_def)
  from assms have 1: "x \<in> set (sub_runs is_space t)"
    by (simp add: in_sub_runs)
  with assms(3) have 2: "x \<in> set (map (\<lambda>c. if is_kept c then c else CHR '' '')
                               (sub_runs is_space t))"
    by force
  with sp have 3: "x \<in> set (sub_runs (\<lambda>c. c = CHR '' '')
      (map (\<lambda>c. if is_kept c then c else CHR '' '') (sub_runs is_space t)))"
    by (intro in_sub_runs) simp_all
  with assms(2) show ?thesis
    unfolding preprocess_text_def Let_def by (intro in_strip) simp_all
qed

lemma extract_pages_marker:
  "extract_pages page_num total_pages pages = [] \<or>
   CHR ''-'' \<in> set (extract_pages page_num total_pages pages)"
proof (induction pages arbitrary: page_num)
  case Nil
  then show ?case by simp
next
  case (Cons p pages)
  show ?case
  proof (cases p)
    case None
    with Cons [of "Suc page_num"] show ?thesis by simp
  next
    case (Some page_text)
    with Cons [of "Suc page_num"] show ?thesis by auto
  qed
qed

lemma dash_facts: "\<not> is_space CHR ''-''" "is_kept CHR ''-''"
  by (simp_all add: is_space_def is_kept_def)

lemma extracted_text_chunks:
  assumes "extract_text_from_pdf pdf = Inr document_text"
  shows "create_chunks document_text chunk_size overlap \<noteq> []"
proof -
  from assms obtain pages where pdf: "pdf = Pages pages"
    by (cases pdf) (auto simp: extract_text_from_pdf_def)
  let ?e = "extract_pages 0 (length pages) pages"
  from assms pdf have t: "document_text = strip ?e" and ne: "strip ?e \<noteq> []"
    by (auto simp: extract_text_from_pdf_def Let_def split: if_splits)
  from ne have "?e \<noteq> []"
    by (auto simp: strip_def)
  with extract_pages_marker [of 0 "length pages" pages] have "CHR ''-'' \<in> set ?e"
    by simp
  then have "CHR ''-'' \<in> set document_text"
    unfolding t by (intro in_strip) (simp_all add: dash_facts)
  then have "CHR ''-'' \<in> set (preprocess_text document_text)"
    by (intro preprocess_keeps) (simp_all add: dash_facts)
  then have "preprocess_text document_text \<noteq> []"
    by auto
  from create_chunks_buffers [OF this, of chunk_size overlap] show ?thesis
    by auto
qed

text \<open>
  Claim C1. When no chunk is created for an input document, \<open>add_document\<close> fails and
  returns the engine as it was, so the documents and the chunks (and their counts) are
  unchanged and no metadata record is added; for a file that could be read, the failure
  is the empty-content one, with the message that no readable text was found.
  \<open>add_document\<close> has no test of its own for an empty chunk list: the case arises only
  when the extraction finds no readable text, because an extracted text always holds a
  page marker, which survives cleaning. Accordingly a successful call always creates at
  least one chunk, and every failing call returns the engine unchanged.
\<close>

theorem add_document_no_chunks:
  "(document_chunks (Pages pages) = [] \<longrightarrow>
      add_document s (Pages pages) filename uid =
        (s, Inl (Exception (''Failed to add document '' @ filename
                  @ '': PDF text extraction failed: No readable text found in the PDF file'')))) \<and>
   (document_chunks pdf = [] \<longrightarrow> (\<exists>e. add_document s pdf filename uid = (s, Inl e))) \<and>
   (\<forall>s' doc_id0 n. add_document s pdf filename uid = (s', Inr (doc_id0, n)) \<longrightarrow>
      n = length (document_chunks pdf) \<and> 0 < n) \<and>
   (\<forall>s' e. add_document s pdf filename uid = (s', Inl e) \<longrightarrow> s' = s)"
proof -
  have a: "\<exists>e. extract_text_from_pdf p = Inl e" if "document_chunks p = []" for p
  proof (cases "extract_text_from_pdf p")
    case (Inl e)
    then show ?thesis by simp
  next
    case (Inr document_text)
    with extracted_text_chunks [OF Inr, of 1000 100] that show ?thesis
      by (simp add: document_chunks_def)
  qed
  have 1: "add_document s (Pages pages) filename uid =
        (s, Inl (Exception (''Failed to add document '' @ filename
                  @ '': PDF text extraction failed: No readable text found in the PDF file'')))"
    if "document_chunks (Pages pages) = []"
  proof -
    from a [OF that] obtain e where e: "extract_text_from_pdf (Pages pages) = Inl e"
      by blast
    then have "e = Exception (''PDF text extraction failed: ''
                            @ ''No readable text found in the PDF file'')"
      by (auto simp: extract_text_from_pdf_def Let_def split: if_splits)
    with e show ?thesis
      by (simp add: add_document_def)
  qed
  have 2: "\<exists>e. add_document s pdf filename uid = (s, Inl e)" if "document_chunks pdf = []"
  proof -
    from a [OF that] obtain e where "extract_text_from_pdf pdf = Inl e"
      by blast
    then show ?thesis
      by (simp add: add_document_def)
  qed
  have 3: "n = length (document_chunks pdf) \<and> 0 < n"
    if "add_document s pdf filename uid = (s', Inr (doc_id0, n))" for s' doc_id0 n
  proof -
    from that obtain document_text where
      t: "extract_text_from_pdf pdf = Inr document_text"
      and n: "n = length (create_chunks document_text 1000 100)"
      by (auto simp: add_document_def Let_def split: sum.splits)
    from extracted_text_chunks [OF t, of 1000 100] t n show ?thesis
      by (simp add: document_chunks_def)
  qed
  have 4: "s' = s" if "add_document s pdf filename uid = (s', Inl e)" for s' e
    using that by (auto simp: add_document_def Let_def split: sum.splits)
  from 1 2 3 4 show ?thesis
    by blast
qed

theorem add_document_no_chunks_witness:
  "document_chunks (Pages [Some ''   '', None, Some []]) = [] \<and>
   add_document sample_engine (Pages [Some ''   '', None, Some []]) ''blank.pdf'' ''doc-9'' =
     (sample_engine,
      Inl (Exception (''Failed to add document blank.pdf''
                @ '': PDF text extraction failed: No readable text found in the PDF file''))) \<and>
   length (documents sample_engine) = 1 \<and> length (chunks sample_engine) = 1"
proof -
  have h: "document_chunks (Pages [Some ''   '', None, Some []]) = []"
    by code_simp
  have l: "length (documents sample_engine) = 1 \<and> length (chunks sample_engine) = 1"
    by code_simp
  from add_document_no_chunks [of "[Some ''   '', None, Some []]" sample_engine
      "''blank.pdf''" "''doc-9''"] h l
  show ?thesis
    by simp
qed

end
